theory Spec2Isabelle
  imports
    Complex_Main
    "HOL-Library.Char_ord"
    "HOL-Library.List_Lexorder"
    "HOL-Library.Sublist"
begin

unbundle bit_operations_syntax

section \<open>The alphabet and the lookup tables of class GeoHash\<close>

text \<open>
  Python exceptions that the modelled functions can raise: a dictionary lookup of a
  missing key, an index beyond a string, a shift by a negative count.
\<close>

datatype error = KeyError | IndexError | ValueError

definition base32 :: string where
  "base32 = ''0123456789bcdefghjkmnpqrstuvwxyz''"

text \<open>\<open>__base32_map = {c: i for i, c in enumerate(__base32)}\<close>\<close>

definition base32_map :: "char \<Rightarrow> nat option" where
  "base32_map = map_of (zip base32 [0..<length base32])"

text \<open>
  \<open>__neighbors\<close> and \<open>__borders\<close>: dictionaries from a direction to a pair of
  strings, one per parity of the length. Method \<open>neighbor\<close> binds \<open>__neighbors\<close> to a
  local name and never reads it.
\<close>

definition neighbors_table :: "string \<Rightarrow> string list option" where
  "neighbors_table = map_of
     [(''n'', [''p0r21436x8zb9dcf5h7kjnmqesgutwvy'', ''bc01fg45238967deuvhjyznpkmstqrwx'']),
      (''s'', [''14365h7k9dcfesgujnmqp0r2twvyx8zb'', ''238967debc01fg45kmstqrwxuvhjyznp'']),
      (''e'', [''bc01fg45238967deuvhjyznpkmstqrwx'', ''p0r21436x8zb9dcf5h7kjnmqesgutwvy'']),
      (''w'', [''238967debc01fg45kmstqrwxuvhjyznp'', ''14365h7k9dcfesgujnmqp0r2twvyx8zb''])]"

definition borders :: "string \<Rightarrow> string list option" where
  "borders = map_of
     [(''n'', [''prxz'', ''bcfguvyz'']),
      (''s'', [''028b'', ''0145hjnp'']),
      (''e'', [''bcfguvyz'', ''prxz'']),
      (''w'', [''0145hjnp'', ''028b''])]"

section \<open>Codec: encode_geohash and decode_geohash\<close>

text \<open>
  Coordinates and interval ends are real numbers here: the rounding of binary64
  arithmetic is not modelled. The local variables of \<open>encode_geohash\<close> form the loop
  state; \<open>geohash_buf\<close>, \<open>bit_no\<close> and \<open>even_bit\<close> are the source's \<open>geohash\<close>,
  \<open>bit\<close> and \<open>even\<close>.
\<close>

type_synonym interval = "real \<times> real"

record encode_state =
  lat_interval :: interval
  lon_interval :: interval
  geohash_buf :: string
  bit_no :: nat
  ch :: nat
  even_bit :: bool

text \<open>\<open>ch |= 1 << (4 - bit)\<close>; Python raises ValueError on a negative shift count.\<close>

definition set_bit_at :: "nat \<Rightarrow> nat \<Rightarrow> error + nat" where
  "set_bit_at c b = (if b \<le> 4 then Inr (c OR push_bit (4 - b) 1) else Inl ValueError)"

text \<open>The first half of the loop body: bisect the longitude or the latitude interval.\<close>

definition bisect_step :: "real \<Rightarrow> real \<Rightarrow> encode_state \<Rightarrow> error + encode_state" where
  "bisect_step lat lon s =
     (if even_bit s then
        (let mid = (fst (lon_interval s) + snd (lon_interval s)) / 2 in
         if lon > mid then
           (case set_bit_at (ch s) (bit_no s) of
              Inl e \<Rightarrow> Inl e
            | Inr c \<Rightarrow> Inr (s\<lparr>ch := c, lon_interval := (mid, snd (lon_interval s))\<rparr>))
         else Inr (s\<lparr>lon_interval := (fst (lon_interval s), mid)\<rparr>))
      else
        (let mid = (fst (lat_interval s) + snd (lat_interval s)) / 2 in
         if lat > mid then
           (case set_bit_at (ch s) (bit_no s) of
              Inl e \<Rightarrow> Inl e
            | Inr c \<Rightarrow> Inr (s\<lparr>ch := c, lat_interval := (mid, snd (lat_interval s))\<rparr>))
         else Inr (s\<lparr>lat_interval := (fst (lat_interval s), mid)\<rparr>)))"

text \<open>
  The second half: flip \<open>even\<close>, then either count the bit or emit \<open>base32[ch]\<close> and
  reset \<open>bit\<close> and \<open>ch\<close>. An index beyond the string raises IndexError.
\<close>

definition advance_step :: "encode_state \<Rightarrow> error + encode_state" where
  "advance_step s =
     (let s2 = s\<lparr>even_bit := \<not> even_bit s\<rparr> in
      if bit_no s2 < 4 then Inr (s2\<lparr>bit_no := bit_no s2 + 1\<rparr>)
      else if ch s2 < length base32 then
        Inr (s2\<lparr>geohash_buf := geohash_buf s2 @ [base32 ! ch s2], bit_no := 0, ch := 0\<rparr>)
      else Inl IndexError)"

definition encode_step :: "real \<Rightarrow> real \<Rightarrow> encode_state \<Rightarrow> error + encode_state" where
  "encode_step lat lon s =
     (case bisect_step lat lon s of Inl e \<Rightarrow> Inl e | Inr s1 \<Rightarrow> advance_step s1)"

text \<open>\<open>while len(geohash) < precision: ...\<close> and \<open>return ''.join(geohash)\<close>\<close>

function encode_loop :: "real \<Rightarrow> real \<Rightarrow> int \<Rightarrow> encode_state \<Rightarrow> error + string" where
  "encode_loop lat lon precision s =
     (if int (length (geohash_buf s)) < precision then
        (case encode_step lat lon s of
           Inl e \<Rightarrow> Inl e
         | Inr s' \<Rightarrow> encode_loop lat lon precision s')
      else Inr (geohash_buf s))"
  by pat_completeness auto
termination
proof (relation "measures [\<lambda>(lat, lon, p, s). nat (p - int (length (geohash_buf s))),
                           \<lambda>(lat, lon, p, s). 4 - bit_no s]", goal_cases)
  case 1
  show ?case by simp
next
  case (2 lat lon precision s s')
  then obtain s1 where b: "bisect_step lat lon s = Inr s1" and a: "advance_step s1 = Inr s'"
    by (auto simp: encode_step_def split: sum.splits)
  from b have "geohash_buf s1 = geohash_buf s \<and> bit_no s1 = bit_no s"
    by (auto simp: bisect_step_def Let_def split: if_splits sum.splits)
  moreover from a have
    "length (geohash_buf s') = Suc (length (geohash_buf s1)) \<or>
     geohash_buf s' = geohash_buf s1 \<and> bit_no s1 < 4 \<and> bit_no s' = Suc (bit_no s1)"
    by (auto simp: advance_step_def Let_def split: if_splits)
  ultimately show ?case
    using 2(1) by auto
qed

declare encode_loop.simps [simp del]

definition encode_geohash :: "real \<Rightarrow> real \<Rightarrow> int \<Rightarrow> error + string" where
  "encode_geohash lat lon precision =
     encode_loop lat lon precision
       \<lparr>lat_interval = (-90, 90), lon_interval = (-180, 180), geohash_buf = [],
        bit_no = 0, ch = 0, even_bit = True\<rparr>"

text \<open>
  \<open>decode_geohash\<close>: the state is (lat_interval, lon_interval, even). \<open>decode_bit\<close> is
  the body of \<open>for mask in [16, 8, 4, 2, 1]\<close>, \<open>decode_loop\<close> the loop over the
  characters; \<open>base32_map[c]\<close> raises KeyError for a character that is no key.
\<close>

definition decode_bit ::
  "nat \<Rightarrow> interval \<times> interval \<times> bool \<Rightarrow> nat \<Rightarrow> interval \<times> interval \<times> bool" where
  "decode_bit cd st msk =
     (case st of (lat_i, lon_i, even_lon) \<Rightarrow>
        if even_lon then
          (if cd AND msk \<noteq> 0
           then (lat_i, ((fst lon_i + snd lon_i) / 2, snd lon_i), \<not> even_lon)
           else (lat_i, (fst lon_i, (fst lon_i + snd lon_i) / 2), \<not> even_lon))
        else
          (if cd AND msk \<noteq> 0
           then (((fst lat_i + snd lat_i) / 2, snd lat_i), lon_i, \<not> even_lon)
           else ((fst lat_i, (fst lat_i + snd lat_i) / 2), lon_i, \<not> even_lon)))"

fun decode_loop ::
  "string \<Rightarrow> interval \<times> interval \<times> bool \<Rightarrow> error + interval \<times> interval \<times> bool" where
  "decode_loop [] st = Inr st"
| "decode_loop (c # gh) st =
     (case base32_map c of
        None \<Rightarrow> Inl KeyError
      | Some cd \<Rightarrow> decode_loop gh (foldl (decode_bit cd) st [16, 8, 4, 2, 1]))"

text \<open>
  The two intervals that \<open>decode_geohash\<close> holds when its loop ends: the bounding
  rectangle of the cell. \<open>decode_geohash\<close> returns the midpoints of the two.
\<close>

definition bounding_rectangle :: "string \<Rightarrow> error + interval \<times> interval" where
  "bounding_rectangle gh =
     (case decode_loop gh ((-90, 90), (-180, 180), True) of
        Inl e \<Rightarrow> Inl e
      | Inr (lat_i, lon_i, _) \<Rightarrow> Inr (lat_i, lon_i))"

definition decode_geohash :: "string \<Rightarrow> error + real \<times> real" where
  "decode_geohash gh =
     (case bounding_rectangle gh of
        Inl e \<Rightarrow> Inl e
      | Inr (lat_i, lon_i) \<Rightarrow> Inr ((fst lat_i + snd lat_i) / 2, (fst lon_i + snd lon_i) / 2))"

section \<open>Neighbor resolver\<close>

text \<open>
  The test of \<open>direction\<close> in \<open>neighbor\<close>: a single letter is the main direction, a pair
  gives a main and a second direction, anything else makes \<open>neighbor\<close> return \<open>''\<close>.
\<close>

definition split_direction :: "string \<Rightarrow> (string \<times> string option) option" where
  "split_direction direction =
     (if direction \<in> set [''n'', ''s'', ''e'', ''w''] then Some (direction, None)
      else if direction \<in> set [''ne'', ''nw'', ''se'', ''sw'']
        then Some ([direction ! 0], Some [direction ! 1])
      else None)"

text \<open>
  \<open>neighbor\<close> (the last of the class): the parent is replaced by its own neighbor when
  the last character is a border character, and the new last character is
  \<open>base32[(base32_map[last_char] + 1) % 32]\<close> whatever the direction.
\<close>

function neighbor :: "string \<Rightarrow> string \<Rightarrow> error + string" where
  "neighbor gh direction =
     (if gh = [] then Inr []
      else
        (case split_direction direction of
           None \<Rightarrow> Inr []
         | Some (main_dir, second_dir) \<Rightarrow>
             (case borders main_dir of
                None \<Rightarrow> Inl KeyError
              | Some border \<Rightarrow>
                  (case (if last gh \<in> set (border ! (length gh mod 2))
                         then neighbor (butlast gh) main_dir
                         else Inr (butlast gh)) of
                     Inl e \<Rightarrow> Inl e
                   | Inr neighbor_base \<Rightarrow>
                       (case base32_map (last gh) of
                          None \<Rightarrow> Inl KeyError
                        | Some neighbor_index \<Rightarrow>
                            (case second_dir of
                               None \<Rightarrow>
                                 Inr (neighbor_base @ [base32 ! ((neighbor_index + 1) mod 32)])
                             | Some d \<Rightarrow>
                                 neighbor
                                   (neighbor_base @ [base32 ! ((neighbor_index + 1) mod 32)])
                                   d))))))"
  by pat_completeness auto
termination
proof -
  have main: "length m \<le> length d" if "split_direction d = Some (m, s)" for d m s
    using that by (auto simp: split_direction_def split: if_splits)
  have second: "length d2 < length d" if "split_direction d = Some (m, Some d2)" for d m d2
    using that by (auto simp: split_direction_def split: if_splits)
  show ?thesis
  proof (relation "measures [\<lambda>(gh, d). length d, \<lambda>(gh, d). length gh]", goal_cases)
    case 1
    show ?case by simp
  next
    case (2 gh direction x2 x y x2a)
    then have "split_direction direction = Some (x, y)" by simp
    then have "length x \<le> length direction" by (rule main)
    with 2(1) show ?case by auto
  next
    case (3 gh direction x2 x y)
    then show ?case using second [of direction x] by auto
  qed
qed

declare neighbor.simps [simp del]

text \<open>The eight directions that \<open>calculate_neighbors\<close> asks for.\<close>

definition directions :: "string list" where
  "directions = [''n'', ''s'', ''e'', ''w'', ''ne'', ''nw'', ''se'', ''sw'']"

section \<open>Integer packing: geohash_to_int and int_to_geohash\<close>

text \<open>
  \<open>geohash_to_int\<close>: \<open>result = result * 32 + base32_map[char]\<close> for every character,
  from the left; a character that is no key of the dictionary raises KeyError.
\<close>

fun geohash_to_int_loop :: "string \<Rightarrow> int \<Rightarrow> error + int" where
  "geohash_to_int_loop [] result = Inr result"
| "geohash_to_int_loop (c # cs) result =
     (case base32_map c of
        None \<Rightarrow> Inl KeyError
      | Some i \<Rightarrow> geohash_to_int_loop cs (result * 32 + int i))"

definition geohash_to_int :: "string \<Rightarrow> error + int" where
  "geohash_to_int gh = geohash_to_int_loop gh 0"

text \<open>
  \<open>int_to_geohash\<close>: \<open>precision\<close> times, \<open>result = base32[geohash_int & 31] + result\<close>
  and \<open>geohash_int >>= 5\<close>. The index \<open>geohash_int & 31\<close> lies in 0..31 for every
  Python integer, so the read of \<open>base32\<close> is always in range.
\<close>

fun int_to_geohash_loop :: "nat \<Rightarrow> int \<Rightarrow> string \<Rightarrow> string" where
  "int_to_geohash_loop 0 geohash_int result = result"
| "int_to_geohash_loop (Suc n) geohash_int result =
     int_to_geohash_loop n (drop_bit 5 geohash_int) (base32 ! nat (geohash_int AND 31) # result)"

definition int_to_geohash :: "int \<Rightarrow> int \<Rightarrow> string" where
  "int_to_geohash geohash_int precision = int_to_geohash_loop (nat precision) geohash_int []"

section \<open>Quadtree subdivider\<close>

definition z_order_even :: "char list list" where
  "z_order_even =
     [''bcfguvyz'',
      ''89destwx'',
      ''2367kmqr'',
      ''0145hjnp'']"

definition z_order_odd :: "char list list" where
  "z_order_odd =
     [''prxz'', ''nqwy'', ''jmtv'', ''hksu'', ''57eg'', ''46df'', ''139c'', ''028b'']"

text \<open>
  \<open>if min_hash and max_hash\<close>: both arguments are given and neither is \<open>None\<close> nor the
  empty string.
\<close>

definition bounds_given :: "string option \<Rightarrow> string option \<Rightarrow> (string \<times> string) option" where
  "bounds_given min_hash max_hash =
     (case (min_hash, max_hash) of
        (Some mn, Some mx) \<Rightarrow> if mn \<noteq> [] \<and> mx \<noteq> [] then Some (mn, mx) else None
      | _ \<Rightarrow> None)"

text \<open>The body of the inner loop that fills the dictionary \<open>children\<close>.\<close>

definition add_child ::
  "string \<Rightarrow> string option \<Rightarrow> string option \<Rightarrow> (char \<rightharpoonup> string) \<Rightarrow> char \<Rightarrow> (char \<rightharpoonup> string)"
  where
  "add_child gh min_hash max_hash children cell =
     (let child = gh @ [cell] in
      case bounds_given min_hash max_hash of
        Some (mn, mx) \<Rightarrow>
          if mn \<le> child \<and> child \<le> mx then children(cell \<mapsto> child) else children
      | None \<Rightarrow> children(cell \<mapsto> child))"

text \<open>Whether \<open>add_child\<close> stores the child of a cell.\<close>

definition keep_child :: "string \<Rightarrow> string option \<Rightarrow> string option \<Rightarrow> char \<Rightarrow> bool" where
  "keep_child gh min_hash max_hash cell =
     (case bounds_given min_hash max_hash of
        Some (mn, mx) \<Rightarrow> mn \<le> gh @ [cell] \<and> gh @ [cell] \<le> mx
      | None \<Rightarrow> True)"

text \<open>\<open>children.get(cell, '')\<close>\<close>

definition get_child :: "(char \<rightharpoonup> string) \<Rightarrow> char \<Rightarrow> string" where
  "get_child children cell = (case children cell of Some child \<Rightarrow> child | None \<Rightarrow> [])"

definition quadtree_split_even ::
  "string \<Rightarrow> string option \<Rightarrow> string option \<Rightarrow> string list list" where
  "quadtree_split_even gh min_hash max_hash =
     (let children = foldl (\<lambda>children row. foldl (add_child gh min_hash max_hash) children row)
                       Map.empty z_order_even
      in map (\<lambda>row. map (get_child children) row) z_order_even)"

definition quadtree_split_odd ::
  "string \<Rightarrow> string option \<Rightarrow> string option \<Rightarrow> string list list" where
  "quadtree_split_odd gh min_hash max_hash =
     (let children = foldl (\<lambda>children row. foldl (add_child gh min_hash max_hash) children row)
                       Map.empty z_order_odd
      in map (\<lambda>row. map (get_child children) row) z_order_odd)"

definition quadtree_split_geo ::
  "string \<Rightarrow> string option \<Rightarrow> string option \<Rightarrow> string list list" where
  "quadtree_split_geo gh min_hash max_hash =
     (if length gh mod 2 = 0 then quadtree_split_even gh min_hash max_hash
      else quadtree_split_odd gh min_hash max_hash)"

section \<open>Range checker\<close>

text \<open>\<open>(1 << (5 * precision)) - 1\<close>\<close>

definition create_bitmask :: "int \<Rightarrow> error + int" where
  "create_bitmask precision =
     (if precision < 0 then Inl ValueError else Inr (push_bit (nat (5 * precision)) 1 - 1))"

definition check_within_bounds :: "string \<Rightarrow> string \<Rightarrow> string \<Rightarrow> error + bool" where
  "check_within_bounds gh min_hash max_hash =
     (let precision = min (length gh) (min (length min_hash) (length max_hash)) in
      case create_bitmask (int precision) of
        Inl e \<Rightarrow> Inl e
      | Inr msk \<Rightarrow>
      (case geohash_to_int gh of
        Inl e \<Rightarrow> Inl e
      | Inr geohash_int \<Rightarrow>
      (case geohash_to_int min_hash of
        Inl e \<Rightarrow> Inl e
      | Inr min_int \<Rightarrow>
      (case geohash_to_int max_hash of
        Inl e \<Rightarrow> Inl e
      | Inr max_int \<Rightarrow>
         (let geohash_shift = 5 * (length gh - precision);
              min_shift = 5 * (length min_hash - precision);
              max_shift = 5 * (length max_hash - precision);
              geohash_int = drop_bit geohash_shift geohash_int;
              min_int = drop_bit min_shift min_int;
              max_int = drop_bit max_shift max_int;
              geohash_int = geohash_int AND msk;
              min_int = min_int AND msk;
              max_int = max_int AND msk
          in Inr (min_int \<le> geohash_int \<and> geohash_int \<le> max_int))))))"

definition check_within_bounds_lexicographic :: "string \<Rightarrow> string \<Rightarrow> string \<Rightarrow> bool" where
  "check_within_bounds_lexicographic gh min_hash max_hash =
     (let precision = min (length gh) (min (length min_hash) (length max_hash)) in
      take precision min_hash \<le> take precision gh \<and>
      take precision gh \<le> take precision max_hash)"

section \<open>Facts about the alphabet\<close>

lemma length_base32: "length base32 = 32"
  by (simp add: base32_def)

lemma distinct_base32: "distinct base32"
  by (simp add: base32_def)

lemma nth_base32_valid: "i < 32 \<Longrightarrow> base32 ! i \<in> set base32"
  by (simp add: length_base32)

lemma base32_map_nth: "i < 32 \<Longrightarrow> base32_map (base32 ! i) = Some i"
  unfolding base32_map_def
  using map_of_zip_nth [of base32 "[0..<length base32]" i]
  by (simp add: length_base32 distinct_base32)

lemma base32_map_Some_iff: "base32_map c = Some i \<longleftrightarrow> i < 32 \<and> base32 ! i = c"
proof
  assume h: "base32_map c = Some i"
  then have "(c, i) \<in> set (zip base32 [0..<length base32])"
    unfolding base32_map_def by (rule map_of_SomeD)
  then obtain k where "k < 32" "base32 ! k = c" "[0..<length base32] ! k = i"
    by (auto simp: in_set_zip length_base32)
  then show "i < 32 \<and> base32 ! i = c"
    by (simp add: length_base32)
next
  assume "i < 32 \<and> base32 ! i = c"
  then show "base32_map c = Some i"
    using base32_map_nth by blast
qed

lemma base32_map_valid: "c \<in> set base32 \<Longrightarrow> \<exists>i<32. base32_map c = Some i \<and> base32 ! i = c"
  by (metis base32_map_nth in_set_conv_nth length_base32)

lemma base32_map_None_iff: "base32_map c = None \<longleftrightarrow> c \<notin> set base32"
proof
  assume "base32_map c = None"
  then show "c \<notin> set base32"
    using base32_map_valid by fastforce
next
  assume "c \<notin> set base32"
  then show "base32_map c = None"
    by (metis base32_map_Some_iff length_base32 not_Some_eq nth_mem)
qed

section \<open>Integer round trip\<close>

lemma geohash_to_int_loop_append:
  "geohash_to_int_loop (xs @ ys) r =
     (case geohash_to_int_loop xs r of Inl e \<Rightarrow> Inl e | Inr r' \<Rightarrow> geohash_to_int_loop ys r')"
  by (induction xs arbitrary: r) (auto split: option.splits)

lemma geohash_to_int_loop_valid:
  "set gh \<subseteq> set base32 \<Longrightarrow> \<exists>n. geohash_to_int_loop gh r = Inr n"
proof (induction gh arbitrary: r)
  case Nil
  show ?case by simp
next
  case (Cons c cs)
  then obtain i where "base32_map c = Some i"
    using base32_map_valid by fastforce
  with Cons show ?case by simp
qed

lemma and_31_drop_5:
  fixes r :: int
  assumes "i < 32"
  shows "nat ((r * 32 + int i) AND 31) = i" and "drop_bit 5 (r * 32 + int i) = r"
proof -
  have m: "(31::int) = mask 5"
    by (simp add: mask_eq_exp_minus_1)
  have "(r * 32 + int i) AND 31 = (r * 32 + int i) mod 2 ^ 5"
    unfolding m by (simp only: take_bit_eq_mask [symmetric] take_bit_eq_mod)
  also have "\<dots> = int i"
    using assms by simp
  finally show "nat ((r * 32 + int i) AND 31) = i"
    by simp
  show "drop_bit 5 (r * 32 + int i) = r"
    using assms by (simp add: drop_bit_eq_div)
qed

lemma int_to_geohash_loop_inverse:
  "set gh \<subseteq> set base32 \<Longrightarrow> geohash_to_int_loop gh r = Inr n \<Longrightarrow>
     int_to_geohash_loop (length gh) n acc = int_to_geohash_loop 0 r (gh @ acc)"
proof (induction gh arbitrary: n acc rule: rev_induct)
  case Nil
  then show ?case by simp
next
  case (snoc c cs)
  from snoc.prems(1) have vcs: "set cs \<subseteq> set base32" and vc: "c \<in> set base32"
    by auto
  from vcs obtain m where m: "geohash_to_int_loop cs r = Inr m"
    using geohash_to_int_loop_valid by blast
  from vc obtain i where i: "i < 32" "base32_map c = Some i" "base32 ! i = c"
    using base32_map_valid by blast
  from snoc.prems(2) m i have n: "n = m * 32 + int i"
    by (simp add: geohash_to_int_loop_append)
  have "int_to_geohash_loop (length (cs @ [c])) n acc =
          int_to_geohash_loop (length cs) m (c # acc)"
    using i by (simp add: n and_31_drop_5)
  also have "\<dots> = int_to_geohash_loop 0 r (cs @ c # acc)"
    using snoc.IH [OF vcs m] .
  finally show ?case by simp
qed

text \<open>
  C3: for every string \<open>s\<close> over the alphabet, \<open>geohash_to_int\<close> returns an integer and
  \<open>int_to_geohash\<close> of that integer at width \<open>len(s)\<close> gives \<open>s\<close> back, leading
  \<open>'0'\<close> characters included.
\<close>

theorem int_round_trip:
  "set s \<subseteq> set base32 \<Longrightarrow>
     \<exists>n. geohash_to_int s = Inr n \<and> int_to_geohash n (int (length s)) = s"
proof -
  assume v: "set s \<subseteq> set base32"
  then obtain n where n: "geohash_to_int_loop s 0 = Inr n"
    using geohash_to_int_loop_valid by blast
  have "int_to_geohash_loop (length s) n [] = s"
    using int_to_geohash_loop_inverse [OF v n, of "[]"] by simp
  with n show ?thesis
    by (simp add: geohash_to_int_def int_to_geohash_def)
qed

theorem int_round_trip_witness:
  "set ''00s7'' \<subseteq> set base32 \<and>
     (\<exists>n. geohash_to_int ''00s7'' = Inr n \<and> int_to_geohash n (int (length ''00s7'')) = ''00s7'')"
proof -
  have h: "set ''00s7'' \<subseteq> set base32"
    by (simp add: base32_def)
  show ?thesis
    using h int_round_trip [OF h] by simp
qed

section \<open>Neighbors\<close>

lemma neighbor_Nil: "neighbor [] d = Inr []"
  by (simp add: neighbor.simps)

lemma borders_single:
  assumes "d \<in> set [''n'', ''s'', ''e'', ''w'']"
  shows "\<exists>b. borders d = Some b \<and> length b = 2 \<and>
           set (b ! 0) \<subseteq> set base32 \<and> set (b ! 1) \<subseteq> set base32"
  using assms by (auto simp: borders_def base32_def)

lemma neighbor_single:
  assumes "d \<in> set [''n'', ''s'', ''e'', ''w'']" and "gh \<noteq> []"
  shows "neighbor gh d =
     (case borders d of
        None \<Rightarrow> Inl KeyError
      | Some border \<Rightarrow>
          (case (if last gh \<in> set (border ! (length gh mod 2))
                 then neighbor (butlast gh) d else Inr (butlast gh)) of
             Inl e \<Rightarrow> Inl e
           | Inr neighbor_base \<Rightarrow>
               (case base32_map (last gh) of
                  None \<Rightarrow> Inl KeyError
                | Some i \<Rightarrow> Inr (neighbor_base @ [base32 ! ((i + 1) mod 32)]))))"
proof -
  have "split_direction d = Some (d, None)"
    using assms(1) by (auto simp: split_direction_def)
  then show ?thesis
    using assms(2) by (subst neighbor.simps) (simp cong: option.case_cong sum.case_cong)
qed

lemma neighbor_compound:
  assumes "d \<in> set [''ne'', ''nw'', ''se'', ''sw'']" and "gh \<noteq> []"
  shows "neighbor gh d =
     (case neighbor gh [d ! 0] of Inl e \<Rightarrow> Inl e | Inr r \<Rightarrow> neighbor r [d ! 1])"
proof -
  have sd: "split_direction d = Some ([d ! 0], Some [d ! 1])"
    using assms(1) by (auto simp: split_direction_def)
  have m: "[d ! 0] \<in> set [''n'', ''s'', ''e'', ''w'']"
    using assms(1) by auto
  show ?thesis
    unfolding neighbor_single [OF m assms(2)]
    using assms(2) sd
    by (subst neighbor.simps) (simp split: option.splits sum.splits)
qed

lemma neighbor_single_valid:
  assumes d: "d \<in> set [''n'', ''s'', ''e'', ''w'']"
  shows "set gh \<subseteq> set base32 \<Longrightarrow>
     \<exists>r. neighbor gh d = Inr r \<and> length r = length gh \<and> set r \<subseteq> set base32"
proof (induction gh rule: rev_induct)
  case Nil
  show ?case by (simp add: neighbor_Nil)
next
  case (snoc c cs)
  then have vcs: "set cs \<subseteq> set base32" and vc: "c \<in> set base32"
    by auto
  from snoc.IH [OF vcs] obtain r where
    r: "neighbor cs d = Inr r" "length r = length cs" "set r \<subseteq> set base32"
    by blast
  from vc obtain i where i: "base32_map c = Some i"
    using base32_map_valid by blast
  obtain b where b: "borders d = Some b"
    using borders_single [OF d] by blast
  have v: "base32 ! ((i + 1) mod 32) \<in> set base32"
    by (rule nth_base32_valid) simp
  show ?case
    using r i b v vcs by (simp add: neighbor_single [OF d])
qed

lemma neighbor_valid:
  assumes d: "d \<in> set directions" and v: "set gh \<subseteq> set base32"
  shows "\<exists>r. neighbor gh d = Inr r \<and> length r = length gh"
proof (cases "gh = []")
  case True
  then show ?thesis by (simp add: neighbor_Nil)
next
  case False
  from d consider "d \<in> set [''n'', ''s'', ''e'', ''w'']"
    | "d \<in> set [''ne'', ''nw'', ''se'', ''sw'']"
    by (auto simp: directions_def)
  then show ?thesis
  proof cases
    case 1
    then show ?thesis using neighbor_single_valid [OF 1 v] by blast
  next
    case 2
    then have m: "[d ! 0] \<in> set [''n'', ''s'', ''e'', ''w'']"
      and s: "[d ! 1] \<in> set [''n'', ''s'', ''e'', ''w'']"
      by auto
    from neighbor_single_valid [OF m v] obtain r where
      r: "neighbor gh [d ! 0] = Inr r" "length r = length gh" "set r \<subseteq> set base32"
      by blast
    from neighbor_single_valid [OF s r(3)] obtain r' where
      "neighbor r [d ! 1] = Inr r'" "length r' = length r"
      by blast
    with r show ?thesis
      by (simp add: neighbor_compound [OF 2 False])
  qed
qed

lemma neighbor_last_invalid:
  assumes d: "d \<in> set directions" and ne: "gh \<noteq> []" and bad: "last gh \<notin> set base32"
  shows "neighbor gh d = Inl KeyError"
proof -
  have single: "neighbor gh m = Inl KeyError" if m: "m \<in> set [''n'', ''s'', ''e'', ''w'']" for m
  proof -
    obtain b where b: "borders m = Some b" "length b = 2"
      "set (b ! 0) \<subseteq> set base32" "set (b ! 1) \<subseteq> set base32"
      using borders_single [OF m] by blast
    have "length gh mod 2 = 0 \<or> length gh mod 2 = 1" by arith
    then have "last gh \<notin> set (b ! (length gh mod 2))"
      using b bad by auto
    moreover have "base32_map (last gh) = None"
      using bad by (simp add: base32_map_None_iff)
    ultimately show ?thesis
      using b by (simp add: neighbor_single [OF m ne])
  qed
  from d consider "d \<in> set [''n'', ''s'', ''e'', ''w'']"
    | "d \<in> set [''ne'', ''nw'', ''se'', ''sw'']"
    by (auto simp: directions_def)
  then show ?thesis
  proof cases
    case 1
    then show ?thesis by (rule single)
  next
    case 2
    then have "[d ! 0] \<in> set [''n'', ''s'', ''e'', ''w'']" by auto
    then have "neighbor gh [d ! 0] = Inl KeyError" by (rule single)
    then show ?thesis by (simp add: neighbor_compound [OF 2 ne])
  qed
qed

text \<open>
  C9: for each of the eight directions, \<open>neighbor\<close> of the empty string is the empty
  string, and \<open>neighbor\<close> of a non-empty geohash over the alphabet returns a string of
  the same length, hence never the empty string.
\<close>

theorem neighbor_keeps_length:
  "d \<in> set directions \<Longrightarrow>
     neighbor [] d = Inr [] \<and>
     (g \<noteq> [] \<longrightarrow> set g \<subseteq> set base32 \<longrightarrow>
        (\<exists>r. neighbor g d = Inr r \<and> length r = length g \<and> r \<noteq> []))"
  using neighbor_valid [of d g] by (auto simp: neighbor_Nil)

theorem neighbor_keeps_length_witness:
  "''ne'' \<in> set directions \<and> ''9z'' \<noteq> [] \<and> set ''9z'' \<subseteq> set base32 \<and>
     neighbor [] ''ne'' = Inr [] \<and>
     (\<exists>r. neighbor ''9z'' ''ne'' = Inr r \<and> length r = length ''9z'' \<and> r \<noteq> [])"
proof -
  have h: "''ne'' \<in> set directions"
    by (simp add: directions_def)
  have v: "''9z'' \<noteq> []" "set ''9z'' \<subseteq> set base32"
    by (simp_all add: base32_def)
  show ?thesis
    using h v neighbor_keeps_length [OF h, of "''9z''"] by simp
qed

text \<open>
  C1, at the input \<open>ezs42\<close>, a cell away from every border of its parent: north then
  south gives \<open>ezs44\<close>, and east then west gives \<open>ezs44\<close> too, not \<open>ezs42\<close>. Each call
  moves the last character one place up the alphabet, the direction playing no part.
\<close>

theorem neighbor_there_and_back_ezs42:
  "neighbor ''ezs42'' ''n'' = Inr ''ezs43'' \<and> neighbor ''ezs43'' ''s'' = Inr ''ezs44'' \<and>
   neighbor ''ezs42'' ''e'' = Inr ''ezs43'' \<and> neighbor ''ezs43'' ''w'' = Inr ''ezs44''"
  by (simp add: neighbor.simps split_direction_def borders_def base32_map_def base32_def)

section \<open>Invalid characters in the loops\<close>

lemma decode_loop_invalid:
  "\<not> set gh \<subseteq> set base32 \<Longrightarrow> decode_loop gh st = Inl KeyError"
proof (induction gh arbitrary: st)
  case Nil
  then show ?case by simp
next
  case (Cons c cs)
  show ?case
  proof (cases "base32_map c")
    case None
    then show ?thesis by simp
  next
    case (Some i)
    then have "c \<in> set base32"
      using base32_map_None_iff [of c] by simp
    with Cons.prems have "\<not> set cs \<subseteq> set base32" by simp
    then show ?thesis using Some Cons.IH by simp
  qed
qed

lemma geohash_to_int_loop_invalid:
  "\<not> set gh \<subseteq> set base32 \<Longrightarrow> geohash_to_int_loop gh r = Inl KeyError"
proof (induction gh arbitrary: r)
  case Nil
  then show ?case by simp
next
  case (Cons c cs)
  show ?case
  proof (cases "base32_map c")
    case None
    then show ?thesis by simp
  next
    case (Some i)
    then have "c \<in> set base32"
      using base32_map_None_iff [of c] by simp
    with Cons.prems have "\<not> set cs \<subseteq> set base32" by simp
    then show ?thesis using Some Cons.IH by simp
  qed
qed

section \<open>Children\<close>

lemma add_child_apply:
  "add_child gh mn mx m cell c =
     (if c = cell \<and> keep_child gh mn mx cell then Some (gh @ [cell]) else m c)"
  by (auto simp: add_child_def keep_child_def Let_def split: option.splits)

lemma foldl_add_child_apply:
  "foldl (add_child gh mn mx) m cells c =
     (if c \<in> set cells \<and> keep_child gh mn mx c then Some (gh @ [c]) else m c)"
  by (induction cells arbitrary: m) (auto simp: add_child_apply)

lemma foldl_rows_add_child_apply:
  "foldl (\<lambda>children row. foldl (add_child gh mn mx) children row) m z c =
     (if c \<in> set (concat z) \<and> keep_child gh mn mx c then Some (gh @ [c]) else m c)"
  by (induction z arbitrary: m) (auto simp: foldl_add_child_apply)

lemma split_matrix:
  "map (\<lambda>row. map (get_child
       (foldl (\<lambda>children row. foldl (add_child gh mn mx) children row) Map.empty z)) row) z =
   map (map (\<lambda>c. if keep_child gh mn mx c then gh @ [c] else [])) z"
  by (auto simp: get_child_def foldl_rows_add_child_apply)

lemma quadtree_split_geo_eq:
  "quadtree_split_geo gh mn mx =
     map (map (\<lambda>c. if keep_child gh mn mx c then gh @ [c] else []))
       (if length gh mod 2 = 0 then z_order_even else z_order_odd)"
  by (simp add: quadtree_split_geo_def quadtree_split_even_def quadtree_split_odd_def split_matrix)

lemma z_order_cover:
  "set (concat z_order_even) = set base32" "distinct (concat z_order_even)"
  "set (concat z_order_odd) = set base32" "distinct (concat z_order_odd)"
  by (auto simp: z_order_even_def z_order_odd_def base32_def)

lemma z_order_shape:
  "map length z_order_even = [8, 8, 8, 8]"
  "map length z_order_odd = [4, 4, 4, 4, 4, 4, 4, 4]"
  by (simp_all add: z_order_even_def z_order_odd_def)

section \<open>The concrete scenario\<close>

text \<open>
  C2, evaluated on the code: \<open>encode_geohash(57.64911, 10.40744, 6)\<close> is \<open>u4pruy\<close>;
  \<open>decode_geohash\<close> of it lies within 0.01 degrees of (57.649, 10.407);
  \<open>check_within_bounds\<close> of \<open>u1kwus\<close> between \<open>u1kwum\<close> and \<open>u1kwuu\<close> is true;
  but the north neighbor of \<open>u4pruy\<close> is \<open>u4pruz\<close> and the south neighbor of that is
  \<open>u4pru0\<close>, not \<open>u4pruy\<close>.
\<close>

theorem scenario:
  "encode_geohash (5764911 / 100000) (1040744 / 100000) 6 = Inr ''u4pruy'' \<and>
   decode_geohash ''u4pruy'' = Inr (944505 / 16384, 85275 / 8192) \<and>
   \<bar>944505 / 16384 - 57649 / 1000\<bar> \<le> (1 / 100 :: real) \<and>
   \<bar>85275 / 8192 - 10407 / 1000\<bar> \<le> (1 / 100 :: real) \<and>
   neighbor ''u4pruy'' ''n'' = Inr ''u4pruz'' \<and>
   neighbor ''u4pruz'' ''s'' = Inr ''u4pru0'' \<and>
   check_within_bounds ''u1kwus'' ''u1kwum'' ''u1kwuu'' = Inr True"
proof (intro conjI)
  show "encode_geohash (5764911 / 100000) (1040744 / 100000) 6 = Inr ''u4pruy''"
    by (simp add: encode_geohash_def encode_loop.simps encode_step_def bisect_step_def
        advance_step_def set_bit_at_def Let_def base32_def)
  have idx: "base32_map CHR ''u'' = Some 26" "base32_map CHR ''4'' = Some 4"
    "base32_map CHR ''p'' = Some 21" "base32_map CHR ''r'' = Some 23"
    "base32_map CHR ''y'' = Some 30"
    by (simp_all add: base32_map_def base32_def)
  show "decode_geohash ''u4pruy'' = Inr (944505 / 16384, 85275 / 8192)"
    by (simp add: decode_geohash_def bounding_rectangle_def decode_bit_def idx)
  show "neighbor ''u4pruy'' ''n'' = Inr ''u4pruz''"
    by (simp add: neighbor.simps split_direction_def borders_def base32_map_def base32_def)
  show "neighbor ''u4pruz'' ''s'' = Inr ''u4pru0''"
    by (simp add: neighbor.simps split_direction_def borders_def base32_map_def base32_def)
  show "check_within_bounds ''u1kwus'' ''u1kwum'' ''u1kwuu'' = Inr True"
    by (simp add: check_within_bounds_def create_bitmask_def geohash_to_int_def base32_map_def
        base32_def)
qed simp_all


lemma keep_child_None: "keep_child g None None c"
  by (simp add: keep_child_def bounds_given_def)

lemma keep_child_empty: "keep_child g (Some []) m c" "keep_child g m (Some []) c"
  by (auto simp: keep_child_def bounds_given_def split: option.splits)

lemma keep_child_Some:
  "a \<noteq> [] \<Longrightarrow> b \<noteq> [] \<Longrightarrow>
     keep_child g (Some a) (Some b) c \<longleftrightarrow> a \<le> g @ [c] \<and> g @ [c] \<le> b"
  by (simp add: keep_child_def bounds_given_def)

lemma quadtree_shape:
  "map length (quadtree_split_geo g mn mx) =
     (if length g mod 2 = 0 then [8, 8, 8, 8] else [4, 4, 4, 4, 4, 4, 4, 4])"
  by (simp add: quadtree_split_geo_eq z_order_shape [symmetric] comp_def)

lemma quadtree_no_bounds:
  "quadtree_split_geo g None None =
     map (map (\<lambda>c. g @ [c])) (if length g mod 2 = 0 then z_order_even else z_order_odd)"
  by (simp add: quadtree_split_geo_eq keep_child_None)

lemma quadtree_no_bounds_entries:
  "concat (quadtree_split_geo g None None) =
     map (\<lambda>c. g @ [c]) (concat (if length g mod 2 = 0 then z_order_even else z_order_odd))"
  by (simp only: quadtree_no_bounds map_concat)

lemma quadtree_no_bounds_cover:
  "length (concat (quadtree_split_geo g None None)) = 32"
  "distinct (concat (quadtree_split_geo g None None))"
  "set (concat (quadtree_split_geo g None None)) = (\<lambda>c. g @ [c]) ` set base32"
proof -
  let ?z = "concat (if length g mod 2 = 0 then z_order_even else z_order_odd)"
  have s: "set ?z = set base32" and d: "distinct ?z"
    using z_order_cover by auto
  have l: "length ?z = 32"
    by (simp add: z_order_even_def z_order_odd_def)
  show "length (concat (quadtree_split_geo g None None)) = 32"
    unfolding quadtree_no_bounds_entries using l by simp
  show "distinct (concat (quadtree_split_geo g None None))"
    unfolding quadtree_no_bounds_entries using d by (simp add: distinct_map inj_on_def)
  show "set (concat (quadtree_split_geo g None None)) = (\<lambda>c. g @ [c]) ` set base32"
    unfolding quadtree_no_bounds_entries using s by simp
qed

text \<open>
  C6 as stated fails where a supplied bound is the empty string: with bounds \<open>''\<close> and
  \<open>'a'\<close> the first entry of the children of \<open>u\<close> is \<open>up\<close>, which does not lie in
  the range.
\<close>

theorem children_empty_bound_counterexample:
  "quadtree_split_geo ''u'' (Some []) (Some ''a'') ! 0 ! 0 = ''up'' \<and>
   \<not> ([] \<le> ''up'' \<and> ''up'' \<le> ''a'')"
  by (simp add: quadtree_split_geo_eq keep_child_empty z_order_odd_def)

text \<open>
  C6, amended: the matrix has 4 rows of 8 entries for a parent of even length and 8 rows
  of 4 for one of odd length, whatever the bounds; with no bounds its entries are the
  parent followed by the characters of the Z-order table, 32 distinct strings, one per
  character of the alphabet; with two non-empty bounds an entry is the child when the
  child lies in the closed range between them, and the empty string otherwise.
\<close>

theorem children_contract:
  "map length (quadtree_split_geo g mn mx) =
     (if length g mod 2 = 0 then [8, 8, 8, 8] else [4, 4, 4, 4, 4, 4, 4, 4]) \<and>
   quadtree_split_geo g None None =
     map (map (\<lambda>c. g @ [c])) (if length g mod 2 = 0 then z_order_even else z_order_odd) \<and>
   length (concat (quadtree_split_geo g None None)) = 32 \<and>
   distinct (concat (quadtree_split_geo g None None)) \<and>
   set (concat (quadtree_split_geo g None None)) = (\<lambda>c. g @ [c]) ` set base32 \<and>
   (a \<noteq> [] \<and> b \<noteq> [] \<longrightarrow>
      quadtree_split_geo g (Some a) (Some b) =
        map (map (\<lambda>c. if a \<le> g @ [c] \<and> g @ [c] \<le> b then g @ [c] else []))
          (if length g mod 2 = 0 then z_order_even else z_order_odd))"
proof (intro conjI impI)
  show "map length (quadtree_split_geo g mn mx) =
     (if length g mod 2 = 0 then [8, 8, 8, 8] else [4, 4, 4, 4, 4, 4, 4, 4])"
    by (rule quadtree_shape)
  show "quadtree_split_geo g None None =
     map (map (\<lambda>c. g @ [c])) (if length g mod 2 = 0 then z_order_even else z_order_odd)"
    by (rule quadtree_no_bounds)
  show "length (concat (quadtree_split_geo g None None)) = 32"
    by (rule quadtree_no_bounds_cover)
  show "distinct (concat (quadtree_split_geo g None None))"
    by (rule quadtree_no_bounds_cover)
  show "set (concat (quadtree_split_geo g None None)) = (\<lambda>c. g @ [c]) ` set base32"
    by (rule quadtree_no_bounds_cover)
  assume "a \<noteq> [] \<and> b \<noteq> []"
  then show "quadtree_split_geo g (Some a) (Some b) =
        map (map (\<lambda>c. if a \<le> g @ [c] \<and> g @ [c] \<le> b then g @ [c] else []))
          (if length g mod 2 = 0 then z_order_even else z_order_odd)"
    by (simp add: quadtree_split_geo_eq keep_child_Some)
qed

theorem children_contract_witness:
  "''u1d'' \<noteq> [] \<and> ''u1s'' \<noteq> [] \<and>
   map length (quadtree_split_geo ''u1'' (Some ''u1d'') (Some ''u1s'')) = [8, 8, 8, 8] \<and>
   quadtree_split_geo ''u1'' (Some ''u1d'') (Some ''u1s'') =
     [[[], [], ''u1f'', ''u1g'', [], [], [], []],
      [[], [], ''u1d'', ''u1e'', ''u1s'', [], [], []],
      [[], [], [], [], ''u1k'', ''u1m'', ''u1q'', ''u1r''],
      [[], [], [], [], ''u1h'', ''u1j'', ''u1n'', ''u1p'']]"
  using children_contract [of "''u1''" "Some ''u1d''" "Some ''u1s''" "''u1d''" "''u1s''"]
  by (simp add: z_order_even_def)

text \<open>
  C10: a call with the empty string as \<open>min_hash\<close>, or as \<open>max_hash\<close>, whatever the
  other bound, returns what the call with no bounds returns: the parent followed by
  each character of the Z-order table, 32 entries, none of them empty.
\<close>

theorem children_empty_bound_unfiltered:
  "quadtree_split_geo g (Some []) m = quadtree_split_geo g None None \<and>
   quadtree_split_geo g m (Some []) = quadtree_split_geo g None None \<and>
   quadtree_split_geo g None None =
     map (map (\<lambda>c. g @ [c])) (if length g mod 2 = 0 then z_order_even else z_order_odd) \<and>
   length (concat (quadtree_split_geo g None None)) = 32 \<and>
   [] \<notin> set (concat (quadtree_split_geo g None None))"
  by (simp add: quadtree_split_geo_eq keep_child_None keep_child_empty
      z_order_even_def z_order_odd_def)

section \<open>Characters outside the alphabet\<close>

text \<open>
  C8 as stated fails: \<open>a\<close> is no character of the alphabet, yet \<open>neighbor\<close> of \<open>a0\<close>
  returns \<open>a1\<close> and the children of \<open>a\<close> are returned, \<open>ap\<close> first.
\<close>

theorem invalid_character_counterexample:
  "\<not> set ''a0'' \<subseteq> set base32 \<and> neighbor ''a0'' ''n'' = Inr ''a1'' \<and>
   \<not> set ''a'' \<subseteq> set base32 \<and> quadtree_split_geo ''a'' None None ! 0 ! 0 = ''ap''"
proof (intro conjI)
  show "neighbor ''a0'' ''n'' = Inr ''a1''"
    by (simp add: neighbor.simps split_direction_def borders_def base32_map_def base32_def)
  show "quadtree_split_geo ''a'' None None ! 0 ! 0 = ''ap''"
    by (simp add: quadtree_no_bounds z_order_odd_def)
qed (simp_all add: base32_def)

text \<open>
  C8, amended: for a string with a character outside the alphabet, \<open>decode_geohash\<close> and
  \<open>geohash_to_int\<close> raise KeyError; \<open>neighbor\<close>, in any of the eight directions, raises
  KeyError when the last character is outside the alphabet; \<open>quadtree_split_geo\<close> looks
  no character up and returns the matrix of children.
\<close>

theorem invalid_character_errors:
  "\<not> set s \<subseteq> set base32 \<Longrightarrow>
     decode_geohash s = Inl KeyError \<and> geohash_to_int s = Inl KeyError \<and>
     (last s \<notin> set base32 \<longrightarrow> d \<in> set directions \<longrightarrow> neighbor s d = Inl KeyError) \<and>
     quadtree_split_geo s None None =
       map (map (\<lambda>c. s @ [c])) (if length s mod 2 = 0 then z_order_even else z_order_odd)"
proof (intro conjI impI)
  assume bad: "\<not> set s \<subseteq> set base32"
  show "decode_geohash s = Inl KeyError"
    using bad by (simp add: decode_geohash_def bounding_rectangle_def decode_loop_invalid)
  show "geohash_to_int s = Inl KeyError"
    using bad by (simp add: geohash_to_int_def geohash_to_int_loop_invalid)
  show "quadtree_split_geo s None None =
       map (map (\<lambda>c. s @ [c])) (if length s mod 2 = 0 then z_order_even else z_order_odd)"
    by (rule quadtree_no_bounds)
  assume "last s \<notin> set base32" "d \<in> set directions"
  moreover from bad have "s \<noteq> []" by auto
  ultimately show "neighbor s d = Inl KeyError"
    by (simp add: neighbor_last_invalid)
qed

theorem invalid_character_errors_witness:
  "\<not> set ''9a'' \<subseteq> set base32 \<and> last ''9a'' \<notin> set base32 \<and> ''n'' \<in> set directions \<and>
   decode_geohash ''9a'' = Inl KeyError \<and> geohash_to_int ''9a'' = Inl KeyError \<and>
   neighbor ''9a'' ''n'' = Inl KeyError"
proof -
  have h: "\<not> set ''9a'' \<subseteq> set base32" "last ''9a'' \<notin> set base32" "''n'' \<in> set directions"
    by (simp_all add: base32_def directions_def)
  show ?thesis
    using h invalid_character_errors [OF h(1), of "''n''"] by simp
qed


section \<open>The two bounds tests\<close>

lemma sorted_base32: "sorted_wrt (<) base32"
  by (simp add: base32_def)

lemma base32_nth_mono:
  assumes "i < 32" "j < 32"
  shows "base32 ! i < base32 ! j \<longleftrightarrow> i < j"
proof
  assume "i < j"
  then show "base32 ! i < base32 ! j"
    using sorted_wrt_nth_less [OF sorted_base32, of i j] assms by (simp add: length_base32)
next
  assume lt: "base32 ! i < base32 ! j"
  show "i < j"
  proof (rule ccontr)
    assume "\<not> i < j"
    then consider "i = j" | "j < i" by linarith
    then show False
    proof cases
      case 1
      with lt show False by simp
    next
      case 2
      then have "base32 ! j < base32 ! i"
        using sorted_wrt_nth_less [OF sorted_base32, of j i] assms by (simp add: length_base32)
      with lt show False by simp
    qed
  qed
qed

lemma base32_map_mono:
  assumes "base32_map c = Some i" "base32_map d = Some j"
  shows "c < d \<longleftrightarrow> i < j" and "c = d \<longleftrightarrow> i = j"
proof -
  from assms have i: "i < 32" "base32 ! i = c" and j: "j < 32" "base32 ! j = d"
    by (simp_all add: base32_map_Some_iff)
  show "c < d \<longleftrightarrow> i < j"
    using base32_nth_mono [OF i(1) j(1)] i j by simp
  show "c = d \<longleftrightarrow> i = j"
    using i j distinct_base32 by (auto simp: nth_eq_iff_index_eq length_base32)
qed

lemma geohash_to_int_loop_value:
  "set ys \<subseteq> set base32 \<Longrightarrow>
     \<exists>w. geohash_to_int_loop ys x = Inr (x * 32 ^ length ys + w) \<and> 0 \<le> w \<and> w < 32 ^ length ys"
proof (induction ys arbitrary: x)
  case Nil
  show ?case by simp
next
  case (Cons c cs)
  then obtain i where i: "i < 32" "base32_map c = Some i"
    using base32_map_valid [of c] by auto
  from Cons obtain w where
    w: "geohash_to_int_loop cs (x * 32 + int i) = Inr ((x * 32 + int i) * 32 ^ length cs + w)"
      "0 \<le> w" "w < 32 ^ length cs"
    by fastforce
  let ?w = "int i * 32 ^ length cs + w"
  have le: "int i * 32 ^ length cs + 32 ^ length cs \<le> 32 * 32 ^ length cs"
  proof -
    have "int i + 1 \<le> 32" using i(1) by simp
    then have "(int i + 1) * 32 ^ length cs \<le> 32 * 32 ^ length cs"
      by (rule mult_right_mono) simp
    then show ?thesis by (simp add: algebra_simps)
  qed
  have "?w < int i * 32 ^ length cs + 32 ^ length cs"
    using w(3) by simp
  with le have "?w < 32 * 32 ^ length cs"
    by linarith
  then have "?w < 32 ^ length (c # cs)"
    by simp
  moreover have "0 \<le> ?w" using w(2) by simp
  moreover have "geohash_to_int_loop (c # cs) x = Inr (x * 32 ^ length (c # cs) + ?w)"
    using i w(1) by (simp add: algebra_simps)
  ultimately show ?case by blast
qed

lemma geohash_to_int_loop_order:
  assumes "length a = length b"
  shows "set a \<subseteq> set base32 \<Longrightarrow> set b \<subseteq> set base32 \<Longrightarrow>
     \<exists>x y. geohash_to_int_loop a r = Inr x \<and> geohash_to_int_loop b r' = Inr y \<and>
       (r < r' \<longrightarrow> x < y) \<and> (r' < r \<longrightarrow> y < x) \<and> (r = r' \<longrightarrow> (x \<le> y) = (a \<le> b))"
  using assms
proof (induction a b arbitrary: r r' rule: list_induct2)
  case Nil
  show ?case by simp
next
  case (Cons c cs d ds)
  from Cons.prems obtain i j where
    i: "i < 32" "base32_map c = Some i" and j: "j < 32" "base32_map d = Some j"
    using base32_map_valid [of c] base32_map_valid [of d] by auto
  from Cons.prems have v: "set cs \<subseteq> set base32" "set ds \<subseteq> set base32"
    by auto
  from Cons.IH [OF v, of "r * 32 + int i" "r' * 32 + int j"] obtain x y where
    xy: "geohash_to_int_loop cs (r * 32 + int i) = Inr x"
      "geohash_to_int_loop ds (r' * 32 + int j) = Inr y"
      "r * 32 + int i < r' * 32 + int j \<longrightarrow> x < y"
      "r' * 32 + int j < r * 32 + int i \<longrightarrow> y < x"
      "r * 32 + int i = r' * 32 + int j \<longrightarrow> (x \<le> y) = (cs \<le> ds)"
    by blast
  have m: "c < d \<longleftrightarrow> i < j" "c = d \<longleftrightarrow> i = j"
    using base32_map_mono [OF i(2) j(2)] by simp_all
  have "r < r' \<longrightarrow> x < y"
    using xy(3) i(1) j(1) by auto
  moreover have "r' < r \<longrightarrow> y < x"
    using xy(4) i(1) j(1) by auto
  moreover have "r = r' \<longrightarrow> (x \<le> y) = (c # cs \<le> d # ds)"
  proof
    assume e: "r = r'"
    consider "i < j" | "i = j" | "j < i" by linarith
    then show "(x \<le> y) = (c # cs \<le> d # ds)"
    proof cases
      case 1
      then show ?thesis using xy(3) e m by auto
    next
      case 2
      then show ?thesis using xy(5) e m by auto
    next
      case 3
      then show ?thesis using xy(4) e m by auto
    qed
  qed
  ultimately show ?case
    using xy(1,2) i(2) j(2) by simp
qed

lemma geohash_to_int_truncate:
  assumes v: "set s \<subseteq> set base32" and p: "p \<le> length s"
  shows "\<exists>n x. geohash_to_int s = Inr n \<and> geohash_to_int_loop (take p s) 0 = Inr x \<and>
           drop_bit (5 * (length s - p)) n AND (2 ^ (5 * p) - 1) = x"
proof -
  have vt: "set (take p s) \<subseteq> set base32" and vd: "set (drop p s) \<subseteq> set base32"
    using v by (auto dest: in_set_takeD in_set_dropD)
  from geohash_to_int_loop_value [OF vt, of 0] obtain x where
    x: "geohash_to_int_loop (take p s) 0 = Inr x" "0 \<le> x" "x < 32 ^ p"
    using p by auto
  from geohash_to_int_loop_value [OF vd, of x] obtain w where
    w: "geohash_to_int_loop (drop p s) x = Inr (x * 32 ^ (length s - p) + w)"
      "0 \<le> w" "w < 32 ^ (length s - p)"
    by auto
  let ?n = "x * 32 ^ (length s - p) + w"
  have n: "geohash_to_int s = Inr ?n"
    using geohash_to_int_loop_append [of "take p s" "drop p s" 0] x(1) w(1)
    by (simp add: geohash_to_int_def)
  have pw: "(2::int) ^ (5 * k) = 32 ^ k" for k
    by (simp add: power_mult)
  have "drop_bit (5 * (length s - p)) ?n = x"
    using w(2,3) by (simp add: drop_bit_eq_div pw)
  moreover have "x AND (2 ^ (5 * p) - 1) = x"
  proof -
    have "x AND mask (5 * p) = x"
      unfolding take_bit_eq_mask [symmetric]
      using x(2,3) by (intro take_bit_int_eq_self) (simp_all add: pw)
    then show ?thesis by (simp add: mask_eq_exp_minus_1)
  qed
  ultimately show ?thesis using n x(1) by auto
qed

lemma bounds_agree:
  assumes "set g \<subseteq> set base32" "set mn \<subseteq> set base32" "set mx \<subseteq> set base32"
  shows "check_within_bounds g mn mx = Inr (check_within_bounds_lexicographic g mn mx)"
proof -
  define p where "p = min (length g) (min (length mn) (length mx))"
  have pl: "p \<le> length g" "p \<le> length mn" "p \<le> length mx"
    by (simp_all add: p_def)
  from geohash_to_int_truncate [OF assms(1) pl(1)] obtain ng xg where
    g: "geohash_to_int g = Inr ng" "geohash_to_int_loop (take p g) 0 = Inr xg"
      "drop_bit (5 * (length g - p)) ng AND (2 ^ (5 * p) - 1) = xg"
    by blast
  from geohash_to_int_truncate [OF assms(2) pl(2)] obtain nmn xmn where
    mn: "geohash_to_int mn = Inr nmn" "geohash_to_int_loop (take p mn) 0 = Inr xmn"
      "drop_bit (5 * (length mn - p)) nmn AND (2 ^ (5 * p) - 1) = xmn"
    by blast
  from geohash_to_int_truncate [OF assms(3) pl(3)] obtain nmx xmx where
    mx: "geohash_to_int mx = Inr nmx" "geohash_to_int_loop (take p mx) 0 = Inr xmx"
      "drop_bit (5 * (length mx - p)) nmx AND (2 ^ (5 * p) - 1) = xmx"
    by blast
  have vt: "set (take p g) \<subseteq> set base32" "set (take p mn) \<subseteq> set base32"
    "set (take p mx) \<subseteq> set base32"
    using assms by (auto dest: in_set_takeD)
  have l1: "length (take p mn) = length (take p g)" and l2: "length (take p g) = length (take p mx)"
    using pl by simp_all
  have o1: "(xmn \<le> xg) = (take p mn \<le> take p g)"
    using geohash_to_int_loop_order [OF l1 vt(2) vt(1), of 0 0] mn(2) g(2) by auto
  have o2: "(xg \<le> xmx) = (take p g \<le> take p mx)"
    using geohash_to_int_loop_order [OF l2 vt(1) vt(3), of 0 0] g(2) mx(2) by auto
  have "check_within_bounds g mn mx = Inr (xmn \<le> xg \<and> xg \<le> xmx)"
    using g(1,3) mn(1,3) mx(1,3)
    by (simp add: check_within_bounds_def create_bitmask_def Let_def p_def [symmetric] nat_mult_distrib)
  then show ?thesis
    by (simp add: o1 o2 check_within_bounds_lexicographic_def Let_def p_def [symmetric])
qed

text \<open>
  C7 as stated fails: no three strings over the alphabet make the two tests differ. The
  alphabet is listed in increasing character order, so the order of strings of one
  length is the order of their packed integers.
\<close>

theorem bounds_tests_disagree_counterexample:
  "\<not> (\<exists>g mn mx. set g \<subseteq> set base32 \<and> set mn \<subseteq> set base32 \<and> set mx \<subseteq> set base32 \<and>
        check_within_bounds g mn mx \<noteq> Inr (check_within_bounds_lexicographic g mn mx))"
  using bounds_agree by blast

text \<open>
  C7, amended: for all strings over the alphabet, \<open>check_within_bounds\<close> returns the
  boolean that \<open>check_within_bounds_lexicographic\<close> returns.
\<close>

theorem bounds_tests_agree:
  "set g \<subseteq> set base32 \<Longrightarrow> set mn \<subseteq> set base32 \<Longrightarrow> set mx \<subseteq> set base32 \<Longrightarrow>
     check_within_bounds g mn mx = Inr (check_within_bounds_lexicographic g mn mx)"
  by (rule bounds_agree)

theorem bounds_tests_agree_witness:
  "set ''u1kwus'' \<subseteq> set base32 \<and> set ''u1kws'' \<subseteq> set base32 \<and> set ''u2'' \<subseteq> set base32 \<and>
     check_within_bounds ''u1kwus'' ''u1kws'' ''u2'' =
       Inr (check_within_bounds_lexicographic ''u1kwus'' ''u1kws'' ''u2'')"
proof -
  have h: "set ''u1kwus'' \<subseteq> set base32" "set ''u1kws'' \<subseteq> set base32" "set ''u2'' \<subseteq> set base32"
    by (simp_all add: base32_def)
  show ?thesis
    using h bounds_tests_agree [OF h] by simp
qed


section \<open>The encode loop\<close>

lemma bisect_step_keeps:
  "bisect_step lat lon s = Inr s1 \<Longrightarrow>
     geohash_buf s1 = geohash_buf s \<and> bit_no s1 = bit_no s \<and> even_bit s1 = even_bit s"
  by (auto simp: bisect_step_def Let_def split: if_splits sum.splits)

lemma advance_step_extends:
  "advance_step s1 = Inr s' \<Longrightarrow>
     geohash_buf s' = geohash_buf s1 \<or> (\<exists>c. geohash_buf s' = geohash_buf s1 @ [c])"
  by (auto simp: advance_step_def Let_def split: if_splits)

lemma encode_step_extends:
  assumes "encode_step lat lon s = Inr s'"
  shows "geohash_buf s' = geohash_buf s \<or> (\<exists>c. geohash_buf s' = geohash_buf s @ [c])"
proof -
  from assms obtain s1 where "bisect_step lat lon s = Inr s1" "advance_step s1 = Inr s'"
    by (auto simp: encode_step_def split: sum.splits)
  then show ?thesis
    using bisect_step_keeps [of lat lon s s1] advance_step_extends [of s1 s'] by auto
qed

lemma encode_loop_extends:
  "encode_loop lat lon p s = Inr r \<Longrightarrow> prefix (geohash_buf s) r"
proof (induction lat lon p s rule: encode_loop.induct)
  case (1 lat lon precision s)
  show ?case
  proof (cases "int (length (geohash_buf s)) < precision")
    case False
    with "1.prems" show ?thesis by (simp add: encode_loop.simps)
  next
    case True
    with "1.prems" obtain s' where
      s': "encode_step lat lon s = Inr s'" "encode_loop lat lon precision s' = Inr r"
      by (subst (asm) encode_loop.simps) (auto split: sum.splits)
    from "1.IH" [OF True s'] have "prefix (geohash_buf s') r" .
    moreover have "prefix (geohash_buf s) (geohash_buf s')"
      using encode_step_extends [OF s'(1)] by auto
    ultimately show ?thesis by (rule prefix_order.trans [rotated])
  qed
qed

lemma encode_loop_mono:
  "p1 \<le> p2 \<Longrightarrow> encode_loop lat lon p1 s = Inr a \<Longrightarrow> encode_loop lat lon p2 s = Inr b \<Longrightarrow>
     prefix a b"
proof (induction lat lon p1 s rule: encode_loop.induct)
  case (1 lat lon precision s)
  show ?case
  proof (cases "int (length (geohash_buf s)) < precision")
    case False
    with "1.prems"(2) have "a = geohash_buf s" by (simp add: encode_loop.simps)
    then show ?thesis using encode_loop_extends [OF "1.prems"(3)] by simp
  next
    case True
    with "1.prems"(2) obtain s' where
      s': "encode_step lat lon s = Inr s'" "encode_loop lat lon precision s' = Inr a"
      by (subst (asm) encode_loop.simps) (auto split: sum.splits)
    from True "1.prems"(1) have "int (length (geohash_buf s)) < p2" by simp
    with "1.prems"(3) s'(1) have "encode_loop lat lon p2 s' = Inr b"
      by (subst (asm) encode_loop.simps) simp
    with "1.IH" [OF True s'(1) "1.prems"(1) s'(2)] show ?thesis .
  qed
qed

lemma or_exp_less_32:
  fixes c :: nat
  assumes "c < 32" "k \<le> 4"
  shows "c OR 2 ^ k < 32"
proof -
  have "(2::int) ^ k < 2 ^ 5"
    using assms(2) by (intro power_strict_increasing) simp_all
  then have "int c OR 2 ^ k < 2 ^ 5"
    using assms(1) by (intro OR_upper) simp_all
  then have "int (c OR 2 ^ k) < 32"
    by (simp add: of_nat_or_eq)
  then show ?thesis by simp
qed

lemma encode_step_ok:
  assumes "bit_no s \<le> 4" "ch s < 32"
  shows "\<exists>s'. encode_step lat lon s = Inr s' \<and> bit_no s' \<le> 4 \<and> ch s' < 32"
  using assms or_exp_less_32 [of "ch s" "4 - bit_no s"]
  by (auto simp: encode_step_def bisect_step_def advance_step_def set_bit_at_def Let_def
      length_base32)

lemma encode_loop_ok:
  "bit_no s \<le> 4 \<Longrightarrow> ch s < 32 \<Longrightarrow> \<exists>r. encode_loop lat lon p s = Inr r"
proof (induction lat lon p s rule: encode_loop.induct)
  case (1 lat lon precision s)
  show ?case
  proof (cases "int (length (geohash_buf s)) < precision")
    case False
    then show ?thesis by (simp add: encode_loop.simps)
  next
    case True
    from encode_step_ok [OF "1.prems", of lat lon] obtain s' where
      s': "encode_step lat lon s = Inr s'" "bit_no s' \<le> 4" "ch s' < 32"
      by blast
    from "1.IH" [OF True s'] obtain r where "encode_loop lat lon precision s' = Inr r" ..
    with True s'(1) show ?thesis
      by (subst encode_loop.simps) simp
  qed
qed

text \<open>
  C5: for every latitude and longitude and all precisions \<open>p1 < p2\<close>, both calls of
  \<open>encode_geohash\<close> return, and the string at \<open>p1\<close> is a prefix of the string at
  \<open>p2\<close>.
\<close>

theorem encode_prefix:
  "p1 < p2 \<Longrightarrow>
     \<exists>a b. encode_geohash lat lon p1 = Inr a \<and> encode_geohash lat lon p2 = Inr b \<and> prefix a b"
proof -
  assume lt: "p1 < p2"
  let ?s = "\<lparr>lat_interval = (-90, 90), lon_interval = (-180, 180), geohash_buf = [],
             bit_no = 0, ch = 0, even_bit = True\<rparr>"
  obtain a where a: "encode_loop lat lon p1 ?s = Inr a"
    using encode_loop_ok [of ?s lat lon p1] by auto
  obtain b where b: "encode_loop lat lon p2 ?s = Inr b"
    using encode_loop_ok [of ?s lat lon p2] by auto
  have "prefix a b"
    using encode_loop_mono [OF _ a b] lt by simp
  with a b show ?thesis
    by (simp add: encode_geohash_def)
qed

theorem encode_prefix_witness:
  "(2::int) < 5 \<and>
     (\<exists>a b. encode_geohash (5764911 / 100000) (1040744 / 100000) 2 = Inr a \<and>
            encode_geohash (5764911 / 100000) (1040744 / 100000) 5 = Inr b \<and> prefix a b)"
proof -
  have h: "(2::int) < 5" by simp
  show ?thesis
    using h encode_prefix [OF h] by simp
qed


end
